theory Spec2Isabelle
  imports Main
begin

section \<open>The walker of govc/cli/walk.go\<close>

text \<open>
  \<^verbatim>\<open>Walk(c, ifaceType, fn)\<close> walks the struct behind the pointer \<open>c\<close> by reflection. For every
  field whose type implements \<open>ifaceType\<close> it keeps one value per type in the map
  \<open>visited\<close>, walks that value the first time the type is seen, and stores it into the
  field. After the fields of a struct it calls \<open>fn\<close> on the pointer to the struct.

  The embedding makes the run-time state explicit: the types of the program (what
  \<open>reflect.Type\<close> answers), the heap of struct values, the map \<open>visited\<close>, and a log of the
  calls of \<open>fn\<close>.
\<close>

subsection \<open>Types, as reflection sees them\<close>

text \<open>
  A type is a named struct, a pointer to a type, or anything else (a basic type, an
  interface, a slice, ...). \<open>reflect.PtrTo t\<close> is \<open>TPtr t\<close>; \<open>Kind() == reflect.Ptr\<close> holds of
  \<open>TPtr\<close> only; \<open>Elem()\<close> of a pointer type is the type pointed to.
\<close>

datatype ty = TStruct string | TPtr ty | TOther string

fun is_Ptr :: "ty \<Rightarrow> bool" where
  "is_Ptr (TPtr t) = True"
| "is_Ptr t = False"

fun Elem :: "ty \<Rightarrow> ty" where
  "Elem (TPtr t) = t"
| "Elem t = t"

text \<open>What \<open>%s\<close> prints for a type.\<close>

fun type_String :: "ty \<Rightarrow> string" where
  "type_String (TStruct s) = s"
| "type_String (TPtr t) = CHR ''*'' # type_String t"
| "type_String (TOther s) = s"

text \<open>\<open>reflect.StructField\<close>: the name, the type and the anonymous flag of a field.\<close>

record StructField =
  Name :: string
  Type :: ty
  Anonymous :: bool

text \<open>
  The struct types of the program, each with its fields in declaration order. A program
  has finitely many types, so the schema is a finite table.
\<close>

type_synonym schema = "(string \<times> StructField list) list"

definition fields_of :: "schema \<Rightarrow> string \<Rightarrow> StructField list" where
  "fields_of sch s = (case map_of sch s of None \<Rightarrow> [] | Some fs \<Rightarrow> fs)"

subsection \<open>Values and the heap\<close>

text \<open>
  The value of a pointer field is nil or the address of a value; the value of any other
  field is opaque data, which the walker never looks into.

  A pointer of type \<open>*T\<close> points to a value of type \<open>T\<close>, so the heap keeps one arena per
  type: \<open>h t ! a\<close> is the value of type \<open>t\<close> at address \<open>a\<close>, given by the values of its
  fields (no fields for a type that is not a struct). Values are separate allocations;
  pointers into the middle of another value are outside the model.
\<close>

datatype val = NilPtr | Ptr nat | Data nat

type_synonym heap = "ty \<Rightarrow> val list list"

definition get_field :: "heap \<Rightarrow> ty \<Rightarrow> nat \<Rightarrow> nat \<Rightarrow> val option" where
  "get_field h t a i =
     (if a < length (h t) \<and> i < length (h t ! a) then Some (h t ! a ! i) else None)"

definition set_field :: "heap \<Rightarrow> ty \<Rightarrow> nat \<Rightarrow> nat \<Rightarrow> val \<Rightarrow> heap" where
  "set_field h t a i v = h(t := (h t)[a := (h t ! a)[i := v]])"

text \<open>The zero value of a type, field by field: nil for a pointer, zero data otherwise.\<close>

definition zero_field :: "StructField \<Rightarrow> val" where
  "zero_field ff = (if is_Ptr (Type ff) then NilPtr else Data 0)"

fun zero_value :: "schema \<Rightarrow> ty \<Rightarrow> val list" where
  "zero_value sch (TStruct s) = map zero_field (fields_of sch s)"
| "zero_value sch t = []"

text \<open>\<open>reflect.New(t)\<close>: a fresh zero value of type \<open>t\<close>, and the pointer to it.\<close>

definition New :: "schema \<Rightarrow> heap \<Rightarrow> ty \<Rightarrow> heap \<times> val" where
  "New sch h t = (h(t := h t @ [zero_value sch t]), Ptr (length (h t)))"

text \<open>
  A \<open>reflect.Value\<close> kept in \<open>visited\<close> is either the result of \<open>reflect.New\<close>, which
  holds the pointer itself, or a field \<open>v.Field(i)\<close> of a walked struct, which is
  addressable: it refers to the field's place in the heap, and reading it gives what the
  field holds at that moment.
\<close>

datatype rvalue = RNew val | RField ty nat nat

fun load :: "heap \<Rightarrow> rvalue \<Rightarrow> val option" where
  "load h (RNew v) = Some v"
| "load h (RField t a i) = get_field h t a i"

text \<open>An \<open>interface{}\<close> holding a pointer: its dynamic type and the pointer.\<close>

type_synonym iface = "ty \<times> val"

subsection \<open>Results\<close>

text \<open>
  A call returns nil, returns an error, or panics. The walker's own panics carry their
  message. \<open>ReflectPanic\<close> stands for the panics of package reflect on a value that is
  not a non-nil pointer to a struct. \<open>Fault\<close> marks an access that Go's memory safety
  rules out (a dangling address, a value with fewer fields than its type).
\<close>

datatype panic = Message string | ReflectPanic | Fault

datatype 'e result = Done | Failed 'e | Panicked panic

definition quoted :: "string \<Rightarrow> string" where
  "quoted s = CHR 0x22 # s @ [CHR 0x22]"

definition must_be_a_pointer :: "string \<Rightarrow> ty \<Rightarrow> panic" where
  "must_be_a_pointer name t =
     Message (''field '' @ quoted name @ '' in struct '' @ quoted (type_String t)
              @ '' must be a pointer'')"

definition must_not_be_anonymous :: "string \<Rightarrow> ty \<Rightarrow> panic" where
  "must_not_be_anonymous name t =
     Message (''field '' @ quoted name @ '' in struct '' @ quoted (type_String t)
              @ '' must not be anonymous'')"

subsection \<open>The state of a walk\<close>

text \<open>
  \<open>heap\<close> and \<open>visited\<close> are the program's. \<open>trace\<close> logs, in order, every call of \<open>fn\<close>
  (with its argument and what it returned) and every \<open>fv.Set\<close> (with the field and the
  value stored). \<open>vstate\<close> is whatever state the visitor keeps outside the walked structs.

  The visitor \<open>fn\<close> reads the heap and its own state and returns an error or nil. It does
  not write to the walked structs.
\<close>

datatype 'e event = Called iface "'e option" | Assigned ty nat nat val

record ('s, 'e) state =
  heap :: heap
  visited :: "ty \<rightharpoonup> rvalue"
  trace :: "'e event list"
  vstate :: 's

type_synonym ('s, 'e) WalkFn = "'s \<Rightarrow> heap \<Rightarrow> iface \<Rightarrow> 'e option \<times> 's"

text \<open>\<^verbatim>\<open>err := fn(c); if err != nil { return err }; return nil\<close>\<close>

definition call_fn :: "('s, 'e) WalkFn \<Rightarrow> iface \<Rightarrow> ('s, 'e) state \<Rightarrow> 'e result \<times> ('s, 'e) state" where
  "call_fn fn c st =
     (case fn (vstate st) (heap st) c of
        (err, vs) \<Rightarrow>
          ((case err of None \<Rightarrow> Done | Some e \<Rightarrow> Failed e),
           st\<lparr>trace := trace st @ [Called c err], vstate := vs\<rparr>))"

text \<open>
  The first sight of the type \<open>ft\<close>, at field \<open>i\<close> of the struct of type \<open>t\<close> at \<open>a\<close>:
  \<^verbatim>\<open>if fv.IsNil() { visited[ft] = reflect.New(ft.Elem()) } else { visited[ft] = fv }\<close>
\<close>

definition register :: "schema \<Rightarrow> ty \<Rightarrow> nat \<Rightarrow> nat \<Rightarrow> ty \<Rightarrow> ('s, 'e) state \<Rightarrow> ('s, 'e) state option" where
  "register sch t a i ft st =
     (case get_field (heap st) t a i of
        None \<Rightarrow> None
      | Some fv \<Rightarrow>
          if fv = NilPtr
          then (case New sch (heap st) (Elem ft) of
                  (h', p) \<Rightarrow> Some (st\<lparr>heap := h', visited := (visited st)(ft \<mapsto> RNew p)\<rparr>))
          else Some (st\<lparr>visited := (visited st)(ft \<mapsto> RField t a i)\<rparr>))"

text \<open>What \<open>visited[ft]\<close> holds now: the canonical instance of the type \<open>ft\<close>.\<close>

definition canonical :: "('s, 'e) state \<Rightarrow> ty \<Rightarrow> val option" where
  "canonical st ft = (case visited st ft of None \<Rightarrow> None | Some rv \<Rightarrow> load (heap st) rv)"

text \<open>\<^verbatim>\<open>fv.Set(visited[ft])\<close>\<close>

definition wire :: "ty \<Rightarrow> nat \<Rightarrow> nat \<Rightarrow> ty \<Rightarrow> ('s, 'e) state \<Rightarrow> ('s, 'e) state option" where
  "wire t a i ft st =
     (case canonical st ft of
        None \<Rightarrow> None
      | Some v \<Rightarrow>
          (case get_field (heap st) t a i of
             None \<Rightarrow> None
           | Some _ \<Rightarrow>
               Some (st\<lparr>heap := set_field (heap st) t a i v, trace := trace st @ [Assigned t a i v]\<rparr>)))"

subsection \<open>The walker\<close>

text \<open>
  \<open>walker\<close> is the closure of the same name, \<open>walk_fields\<close> its loop over the fields from
  index \<open>i\<close> on. \<open>Implements t\<close> is \<open>t.Implements(ifaceType)\<close>. The first argument bounds
  the depth of the recursion: \<open>None\<close> means that the bound was reached.
\<close>

fun walker :: "nat \<Rightarrow> schema \<Rightarrow> (ty \<Rightarrow> bool) \<Rightarrow> ('s, 'e) WalkFn \<Rightarrow> iface \<Rightarrow> ('s, 'e) state
                 \<Rightarrow> ('e result \<times> ('s, 'e) state) option"
  and walk_fields :: "nat \<Rightarrow> schema \<Rightarrow> (ty \<Rightarrow> bool) \<Rightarrow> ('s, 'e) WalkFn \<Rightarrow> ty \<Rightarrow> nat \<Rightarrow> nat
                 \<Rightarrow> StructField list \<Rightarrow> ('s, 'e) state \<Rightarrow> ('e result \<times> ('s, 'e) state) option"
where
  "walker 0 sch Implements fn c st = None"
| "walker (Suc n) sch Implements fn c st =
     (case c of
        (TPtr (TStruct s), Ptr a) \<Rightarrow>
          (case walk_fields n sch Implements fn (TStruct s) a 0 (fields_of sch s) st of
             None \<Rightarrow> None
           | Some (Done, st1) \<Rightarrow> Some (call_fn fn c st1)
           | Some (r, st1) \<Rightarrow> Some (r, st1))
      | _ \<Rightarrow> Some (Panicked ReflectPanic, st))"
| "walk_fields n sch Implements fn t a i [] st = Some (Done, st)"
| "walk_fields n sch Implements fn t a i (ff # rest) st =
     (let ft = Type ff in
      if Implements (TPtr ft) then Some (Panicked (must_be_a_pointer (Name ff) t), st)
      else if \<not> Implements ft then walk_fields n sch Implements fn t a (Suc i) rest st
      else if \<not> is_Ptr ft then Some (Panicked (must_be_a_pointer (Name ff) t), st)
      else if Anonymous ff then Some (Panicked (must_not_be_anonymous (Name ff) t), st)
      else
        (case (case visited st ft of
                 Some _ \<Rightarrow> Some (Done, st)
               | None \<Rightarrow>
                   (case register sch t a i ft st of
                      None \<Rightarrow> Some (Panicked Fault, st)
                    | Some st1 \<Rightarrow>
                        (case canonical st1 ft of
                           None \<Rightarrow> Some (Panicked Fault, st1)
                         | Some p \<Rightarrow> walker n sch Implements fn (ft, p) st1))) of
           None \<Rightarrow> None
         | Some (Done, st2) \<Rightarrow>
             (case wire t a i ft st2 of
                None \<Rightarrow> Some (Panicked Fault, st2)
              | Some st3 \<Rightarrow> walk_fields n sch Implements fn t a (Suc i) rest st3)
         | Some (r, st2) \<Rightarrow> Some (r, st2)))"

text \<open>\<^verbatim>\<open>visited := make(map[reflect.Type]reflect.Value); ...; return walker(c)\<close>\<close>

definition init :: "heap \<Rightarrow> 's \<Rightarrow> ('s, 'e) state" where
  "init h vs = \<lparr>heap = h, visited = Map.empty, trace = [], vstate = vs\<rparr>"

definition Walk :: "nat \<Rightarrow> schema \<Rightarrow> (ty \<Rightarrow> bool) \<Rightarrow> ('s, 'e) WalkFn \<Rightarrow> iface \<Rightarrow> heap \<Rightarrow> 's
                      \<Rightarrow> ('e result \<times> ('s, 'e) state) option" where
  "Walk n sch Implements fn c h vs = walker n sch Implements fn c (init h vs)"

section \<open>Notions used to state the properties\<close>

subsection \<open>Fields and their types\<close>

text \<open>\<open>t.NumField()\<close> and \<open>t.Field(i)\<close> for any type: only a struct has fields.\<close>

fun struct_fields :: "schema \<Rightarrow> ty \<Rightarrow> StructField list" where
  "struct_fields sch (TStruct s) = fields_of sch s"
| "struct_fields sch t = []"

definition field_type :: "schema \<Rightarrow> ty \<Rightarrow> nat \<Rightarrow> ty option" where
  "field_type sch t i =
     (if i < length (struct_fields sch t) then Some (Type (struct_fields sch t ! i)) else None)"

text \<open>A field whose declared type implements the interface.\<close>

definition shared_field :: "schema \<Rightarrow> (ty \<Rightarrow> bool) \<Rightarrow> ty \<Rightarrow> nat \<Rightarrow> bool" where
  "shared_field sch Implements t i =
     (case field_type sch t i of None \<Rightarrow> False | Some ft \<Rightarrow> Implements ft)"

text \<open>
  The walker panics at a rejected field; an accepted field is one it shares; every other
  field it skips.
\<close>

definition rejected :: "(ty \<Rightarrow> bool) \<Rightarrow> StructField \<Rightarrow> bool" where
  "rejected Implements ff \<longleftrightarrow>
     Implements (TPtr (Type ff)) \<or>
     (Implements (Type ff) \<and> (\<not> is_Ptr (Type ff) \<or> Anonymous ff))"

definition accepted :: "(ty \<Rightarrow> bool) \<Rightarrow> StructField \<Rightarrow> bool" where
  "accepted Implements ff \<longleftrightarrow>
     \<not> Implements (TPtr (Type ff)) \<and> Implements (Type ff) \<and> is_Ptr (Type ff) \<and> \<not> Anonymous ff"

definition well_formed :: "schema \<Rightarrow> (ty \<Rightarrow> bool) \<Rightarrow> iface \<Rightarrow> bool" where
  "well_formed sch Implements c =
     list_all (\<lambda>ff. \<not> rejected Implements ff) (struct_fields sch (Elem (fst c)))"

subsection \<open>Wired fields\<close>

text \<open>
  A field is wired when it holds the canonical instance of its declared type; a node is
  wired when every field of its struct that implements the interface is.
\<close>

definition wired :: "schema \<Rightarrow> ('s, 'e) state \<Rightarrow> ty \<Rightarrow> nat \<Rightarrow> nat \<Rightarrow> bool" where
  "wired sch st t a i =
     (case field_type sch t i of
        None \<Rightarrow> False
      | Some ft \<Rightarrow>
          (case get_field (heap st) t a i of
             None \<Rightarrow> False
           | Some v \<Rightarrow> canonical st ft = Some v))"

definition node_wired :: "schema \<Rightarrow> (ty \<Rightarrow> bool) \<Rightarrow> ('s, 'e) state \<Rightarrow> iface \<Rightarrow> bool" where
  "node_wired sch Implements st c =
     (case c of
        (TPtr t, Ptr a) \<Rightarrow>
          list_all (\<lambda>i. shared_field sch Implements t i \<longrightarrow> wired sch st t a i)
                   [0..<length (struct_fields sch t)]
      | _ \<Rightarrow> False)"

subsection \<open>Invariants of a walk\<close>

text \<open>
  A field kept in \<open>visited\<close> under the type \<open>ft\<close> is a field of declared type \<open>ft\<close> that
  exists in the heap.
\<close>

definition slots_ok :: "schema \<Rightarrow> ('s, 'e) state \<Rightarrow> bool" where
  "slots_ok sch st \<longleftrightarrow>
     (\<forall>ft t a i. visited st ft = Some (RField t a i) \<longrightarrow>
        field_type sch t i = Some ft \<and> get_field (heap st) t a i \<noteq> None)"

text \<open>
  Every node the visitor was called on is wired and has no rejected field; every field
  that was assigned implements the interface and still holds the assigned value, the
  canonical instance of its type.
\<close>

definition trace_ok :: "schema \<Rightarrow> (ty \<Rightarrow> bool) \<Rightarrow> ('s, 'e) state \<Rightarrow> bool" where
  "trace_ok sch Implements st \<longleftrightarrow>
     (\<forall>ev \<in> set (trace st).
        case ev of
          Called c e \<Rightarrow> node_wired sch Implements st c \<and> well_formed sch Implements c
        | Assigned t a i v \<Rightarrow>
            shared_field sch Implements t i \<and> wired sch st t a i \<and>
            get_field (heap st) t a i = Some v)"

definition walk_inv :: "schema \<Rightarrow> (ty \<Rightarrow> bool) \<Rightarrow> ('s, 'e) state \<Rightarrow> bool" where
  "walk_inv sch Implements st \<longleftrightarrow>
     slots_ok sch st \<and> trace_ok sch Implements st \<and>
     (\<forall>ft rv. visited st ft = Some rv \<longrightarrow> Implements ft \<and> is_Ptr ft)"

text \<open>
  How a state evolves during a walk: \<open>visited\<close> only grows, a canonical instance never
  changes, a field of the heap keeps its value unless it implements the interface and is
  now wired, and the trace only grows.
\<close>

definition evolves :: "schema \<Rightarrow> (ty \<Rightarrow> bool) \<Rightarrow> ('s, 'e) state \<Rightarrow> ('s, 'e) state \<Rightarrow> bool" where
  "evolves sch Implements st st' \<longleftrightarrow>
     (\<forall>ft rv. visited st ft = Some rv \<longrightarrow> visited st' ft = Some rv) \<and>
     (\<forall>ft v. canonical st ft = Some v \<longrightarrow> canonical st' ft = Some v) \<and>
     (\<forall>t a i v. get_field (heap st) t a i = Some v \<longrightarrow>
        get_field (heap st') t a i = Some v \<or>
        (wired sch st' t a i \<and> shared_field sch Implements t i)) \<and>
     (\<exists>tr. trace st' = trace st @ tr)"

definition walker_sound :: "nat \<Rightarrow> schema \<Rightarrow> (ty \<Rightarrow> bool) \<Rightarrow> ('s, 'e) WalkFn \<Rightarrow> bool" where
  "walker_sound n sch I fn \<longleftrightarrow>
     (\<forall>c st r st'. walk_inv sch I st \<longrightarrow> walker n sch I fn c st = Some (r, st') \<longrightarrow>
        walk_inv sch I st' \<and> evolves sch I st st')"

subsection \<open>Errors of the visitor\<close>

text \<open>
  A trace is clean when no call of the visitor in it returned an error. A walk that
  returns an error stopped right after a call of the visitor that returned this error, in
  the state this call left, and no earlier call had returned an error.
\<close>

definition clean :: "'e event list \<Rightarrow> bool" where
  "clean tr \<longleftrightarrow> (\<forall>c e. Called c (Some e) \<notin> set tr)"

definition stopped :: "('s, 'e) WalkFn \<Rightarrow> 'e result \<Rightarrow> ('s, 'e) state \<Rightarrow> bool" where
  "stopped fn r st' \<longleftrightarrow>
     (case r of
        Failed e \<Rightarrow> (\<exists>c st1. clean (trace st1) \<and> call_fn fn c st1 = (Failed e, st'))
      | _ \<Rightarrow> clean (trace st'))"

subsection \<open>The calls of the visitor\<close>



subsection \<open>The depth of the recursion\<close>

text \<open>
  The types of the fields of the schema, each once, and how many of them \<open>visited\<close> does
  not hold yet. The walker calls itself only for a field type that \<open>visited\<close> does not
  hold, and has entered the type by then.
\<close>

definition field_types :: "schema \<Rightarrow> ty list" where
  "field_types sch = remdups (map Type (concat (map snd sch)))"

definition unseen :: "schema \<Rightarrow> ('s, 'e) state \<Rightarrow> nat" where
  "unseen sch st = card (set (field_types sch) - dom (visited st))"

subsection \<open>Reading the result of a walk\<close>

definition outcome :: "('e result \<times> ('s, 'e) state) option \<Rightarrow> 'e result option" where
  "outcome w = map_option fst w"

definition final :: "('e result \<times> ('s, 'e) state) option \<Rightarrow> ('s, 'e) state" where
  "final w = snd (the w)"

section \<open>Example programs\<close>

text \<open>
  The interface of the examples is implemented by \<open>*Conn\<close>, \<open>*Foo\<close> and \<open>*Root\<close> (methods
  on the pointer), as \<open>*Client\<close> implements the flag interface in govc.
\<close>

definition field :: "string \<Rightarrow> ty \<Rightarrow> StructField" where
  "field name t = \<lparr>Name = name, Type = t, Anonymous = False\<rparr>"

definition embedded :: "string \<Rightarrow> ty \<Rightarrow> StructField" where
  "embedded name t = \<lparr>Name = name, Type = t, Anonymous = True\<rparr>"

definition HasFlags :: "ty \<Rightarrow> bool" where
  "HasFlags t \<longleftrightarrow>
     t = TPtr (TStruct ''Conn'') \<or> t = TPtr (TStruct ''Foo'') \<or> t = TPtr (TStruct ''Root'')"

definition visit_nil :: "(unit, string) WalkFn" where
  "visit_nil vs h c = (None, ())"

definition empty_heap :: heap where
  "empty_heap t = []"

definition root :: iface where
  "root = (TPtr (TStruct ''Root''), Ptr 0)"

text \<open>
  \<^verbatim>\<open>type Root struct { A *Conn; B *Conn }\<close>, walked from a root whose fields hold \<open>x\<close> and
  \<open>y\<close>, with one \<open>Conn\<close> at address 0.
\<close>

definition pair_schema :: schema where
  "pair_schema =
     [(''Root'', [field ''A'' (TPtr (TStruct ''Conn'')), field ''B'' (TPtr (TStruct ''Conn''))]),
      (''Conn'', [])]"

definition pair_heap :: "val \<Rightarrow> val \<Rightarrow> heap" where
  "pair_heap x y = empty_heap(TStruct ''Root'' := [[x, y]], TStruct ''Conn'' := [[]])"

definition pair_walk :: "val \<Rightarrow> val \<Rightarrow> (string result \<times> (unit, string) state) option" where
  "pair_walk x y = Walk 2 pair_schema HasFlags visit_nil root (pair_heap x y) ()"

text \<open>
  \<^verbatim>\<open>type Root struct { Label string; A *Conn; B *Foo }\<close>, all fields zero but the label,
  and a visitor that returns the error \<open>boom\<close> on a \<open>*Foo\<close>.
\<close>

definition visit_fail_Foo :: "(unit, string) WalkFn" where
  "visit_fail_Foo vs h c = (if fst c = TPtr (TStruct ''Foo'') then Some ''boom'' else None, ())"

definition two_schema :: schema where
  "two_schema =
     [(''Root'', [field ''Label'' (TOther ''string''), field ''A'' (TPtr (TStruct ''Conn'')),
                  field ''B'' (TPtr (TStruct ''Foo''))]),
      (''Conn'', []), (''Foo'', [])]"

definition two_heap :: heap where
  "two_heap = empty_heap(TStruct ''Root'' := [[Data 7, NilPtr, NilPtr]])"

definition two_walk :: "(unit, string) WalkFn \<Rightarrow> (string result \<times> (unit, string) state) option" where
  "two_walk fn = Walk 2 two_schema HasFlags fn root two_heap ()"

text \<open>
  \<^verbatim>\<open>type Root struct { Self *Root }\<close>: the root's own type is the type of its field. The
  field is nil, or points to the root.
\<close>

definition self_schema :: schema where
  "self_schema = [(''Root'', [field ''Self'' (TPtr (TStruct ''Root''))])]"

definition self_heap :: "val \<Rightarrow> heap" where
  "self_heap x = empty_heap(TStruct ''Root'' := [[x]])"

definition self_walk :: "val \<Rightarrow> (string result \<times> (unit, string) state) option" where
  "self_walk x = Walk 3 self_schema HasFlags visit_nil root (self_heap x) ()"

text \<open>\<^verbatim>\<open>type Root struct { A *Conn; B Conn }\<close>: the field \<open>B\<close> holds a \<open>Conn\<close> by value.\<close>

definition value_schema :: schema where
  "value_schema =
     [(''Root'', [field ''A'' (TPtr (TStruct ''Conn'')), field ''B'' (TStruct ''Conn'')]),
      (''Conn'', [])]"

definition value_heap :: heap where
  "value_heap = empty_heap(TStruct ''Root'' := [[NilPtr, Data 0]])"

definition value_walk :: "(string result \<times> (unit, string) state) option" where
  "value_walk = Walk 2 value_schema HasFlags visit_nil root value_heap ()"

text \<open>
  \<^verbatim>\<open>type Root struct { A *Conn }; type Conn struct { F *Foo }; type Foo struct { C *Conn }\<close>:
  \<open>Conn\<close> and \<open>Foo\<close> have fields of each other's type.
\<close>

definition cycle_schema :: schema where
  "cycle_schema =
     [(''Root'', [field ''A'' (TPtr (TStruct ''Conn''))]),
      (''Conn'', [field ''F'' (TPtr (TStruct ''Foo''))]),
      (''Foo'', [field ''C'' (TPtr (TStruct ''Conn''))])]"

definition cycle_heap :: heap where
  "cycle_heap = empty_heap(TStruct ''Root'' := [[NilPtr]])"

definition cycle_walk :: "nat \<Rightarrow> (string result \<times> (unit, string) state) option" where
  "cycle_walk n = Walk n cycle_schema HasFlags visit_nil root cycle_heap ()"

section \<open>Basic facts\<close>

lemma get_set_field:
  "get_field (set_field h t a i v) t' a' i' =
     (if t' = t \<and> a' = a \<and> i' = i \<and> get_field h t a i \<noteq> None then Some v
      else get_field h t' a' i')"
  by (auto simp: get_field_def set_field_def nth_list_update)

lemma get_field_New:
  "get_field h t' a' i' = Some v \<Longrightarrow> get_field (fst (New sch h t)) t' a' i' = Some v"
  by (auto simp: get_field_def New_def nth_append split: if_splits)

lemma evolves_refl: "evolves sch I st st"
  by (simp add: evolves_def)

lemma evolves_wired:
  assumes "evolves sch I st st'" "wired sch st t a i"
  shows "wired sch st' t a i"
proof -
  from assms(2) obtain ft v where ft: "field_type sch t i = Some ft"
    and g: "get_field (heap st) t a i = Some v" and c: "canonical st ft = Some v"
    by (auto simp: wired_def split: option.splits)
  from assms(1) c have c': "canonical st' ft = Some v" by (simp add: evolves_def)
  from assms(1) g have "get_field (heap st') t a i = Some v \<or> wired sch st' t a i"
    unfolding evolves_def by blast
  then show ?thesis using ft c' by (auto simp: wired_def)
qed

lemma evolves_trans:
  assumes "evolves sch I st st'" "evolves sch I st' st''"
  shows "evolves sch I st st''"
  unfolding evolves_def
proof (intro conjI allI impI)
  fix ft rv assume "visited st ft = Some rv"
  then show "visited st'' ft = Some rv" using assms by (simp add: evolves_def)
next
  fix ft v assume "canonical st ft = Some v"
  then show "canonical st'' ft = Some v" using assms by (simp add: evolves_def)
next
  fix t a i v assume g: "get_field (heap st) t a i = Some v"
  with assms(1) consider "get_field (heap st') t a i = Some v"
    | "wired sch st' t a i" "shared_field sch I t i"
    unfolding evolves_def by blast
  then show "get_field (heap st'') t a i = Some v \<or>
             (wired sch st'' t a i \<and> shared_field sch I t i)"
  proof cases
    case 1
    with assms(2) show ?thesis unfolding evolves_def by blast
  next
    case 2
    with evolves_wired [OF assms(2)] show ?thesis by blast
  qed
next
  from assms show "\<exists>tr. trace st'' = trace st @ tr" by (auto simp: evolves_def)
qed

lemma node_wired_iff:
  "node_wired sch I st c \<longleftrightarrow>
     (\<exists>t a. c = (TPtr t, Ptr a) \<and> (\<forall>i. shared_field sch I t i \<longrightarrow> wired sch st t a i))"
  by (auto simp: node_wired_def list_all_iff shared_field_def field_type_def
           split: prod.splits ty.splits val.splits if_splits)

lemma evolves_node_wired:
  "evolves sch I st st' \<Longrightarrow> node_wired sch I st c \<Longrightarrow> node_wired sch I st' c"
  by (auto simp: node_wired_iff dest: evolves_wired)

lemma evolves_assigned:
  assumes "evolves sch I st st'" "wired sch st t a i" "get_field (heap st) t a i = Some v"
  shows "get_field (heap st') t a i = Some v"
proof -
  from assms(2,3) obtain ft where ft: "field_type sch t i = Some ft" and c: "canonical st ft = Some v"
    by (auto simp: wired_def split: option.splits)
  from assms(1) c have c': "canonical st' ft = Some v" by (simp add: evolves_def)
  from assms(1,3) have "get_field (heap st') t a i = Some v \<or> wired sch st' t a i"
    unfolding evolves_def by blast
  then show ?thesis using ft c' by (auto simp: wired_def split: option.splits)
qed

lemma evolves_trace_ok:
  assumes "evolves sch I st st'" "trace_ok sch I st" "trace st' = trace st"
  shows "trace_ok sch I st'"
  using assms evolves_node_wired [OF assms(1)] evolves_wired [OF assms(1)] evolves_assigned [OF assms(1)]
  unfolding trace_ok_def by (auto split: event.splits)

lemma register_step:
  assumes "walk_inv sch I st" "visited st ft = None" "field_type sch t i = Some ft"
    and "register sch t a i ft st = Some st1" and acc: "I ft" "is_Ptr ft"
  shows "walk_inv sch I st1 \<and> evolves sch I st st1 \<and> canonical st1 ft \<noteq> None \<and> trace st1 = trace st"
proof -
  from assms(4) obtain fv where fv: "get_field (heap st) t a i = Some fv"
    by (auto simp: register_def split: option.splits)
  have ok: "slots_ok sch st" using assms(1) by (simp add: walk_inv_def)
  show ?thesis
  proof (cases "fv = NilPtr")
    case True
    with assms(4) fv have st1: "st1 = st\<lparr>heap := fst (New sch (heap st) (Elem ft)),
        visited := (visited st)(ft \<mapsto> RNew (snd (New sch (heap st) (Elem ft))))\<rparr>"
      by (auto simp: register_def split: prod.splits)
    have g: "\<And>t' a' i' v. get_field (heap st) t' a' i' = Some v \<Longrightarrow> get_field (heap st1) t' a' i' = Some v"
      by (simp add: st1 get_field_New)
    have l: "\<And>rv v. load (heap st) rv = Some v \<Longrightarrow> load (heap st1) rv = Some v"
      subgoal for rv v by (cases rv) (auto simp: g)
      done
    have e: "evolves sch I st st1"
      unfolding evolves_def
    proof (intro conjI allI impI)
      fix ft' rv assume "visited st ft' = Some rv"
      then show "visited st1 ft' = Some rv" using assms(2) by (auto simp: st1)
    next
      fix ft' v assume "canonical st ft' = Some v"
      then show "canonical st1 ft' = Some v"
        using assms(2) l by (auto simp: canonical_def st1 split: option.splits)
    next
      fix t' a' i' v assume "get_field (heap st) t' a' i' = Some v"
      then show "get_field (heap st1) t' a' i' = Some v \<or>
                 (wired sch st1 t' a' i' \<and> shared_field sch I t' i')"
        by (simp add: g)
    next
      show "\<exists>tr. trace st1 = trace st @ tr" by (simp add: st1)
    qed
    have s: "slots_ok sch st1"
      unfolding slots_ok_def
    proof (intro allI impI)
      fix ft' t' a' i' assume "visited st1 ft' = Some (RField t' a' i')"
      then have v: "visited st ft' = Some (RField t' a' i')" by (auto simp: st1 split: if_splits)
      with ok have f: "field_type sch t' i' = Some ft'" and "get_field (heap st) t' a' i' \<noteq> None"
        by (auto simp: slots_ok_def)
      then obtain y where "get_field (heap st) t' a' i' = Some y" by auto
      from g [OF this] f
      show "field_type sch t' i' = Some ft' \<and> get_field (heap st1) t' a' i' \<noteq> None" by simp
    qed
    have tr: "trace st1 = trace st" by (simp add: st1)
    have r: "\<forall>ft rv. visited st1 ft = Some rv \<longrightarrow> I ft \<and> is_Ptr ft"
      using assms(1) acc by (auto simp: walk_inv_def st1)
    have "canonical st1 ft \<noteq> None" by (simp add: canonical_def st1)
    with e s r tr evolves_trace_ok [OF e _ tr] assms(1) show ?thesis by (simp add: walk_inv_def)
  next
    case False
    with assms(4) fv have st1: "st1 = st\<lparr>visited := (visited st)(ft \<mapsto> RField t a i)\<rparr>"
      by (auto simp: register_def)
    have e: "evolves sch I st st1"
      unfolding evolves_def using assms(2)
      by (auto simp: st1 canonical_def split: option.splits)
    have s: "slots_ok sch st1"
      using ok fv assms(3) unfolding slots_ok_def by (auto simp: st1 split: if_splits)
    have tr: "trace st1 = trace st" by (simp add: st1)
    have r: "\<forall>ft rv. visited st1 ft = Some rv \<longrightarrow> I ft \<and> is_Ptr ft"
      using assms(1) acc by (auto simp: walk_inv_def st1)
    have "canonical st1 ft \<noteq> None" using fv by (simp add: canonical_def st1)
    with e s r tr evolves_trace_ok [OF e _ tr] assms(1) show ?thesis by (simp add: walk_inv_def)
  qed
qed

lemma wire_step:
  assumes "walk_inv sch I st" "field_type sch t i = Some ft" "I ft"
    and "wire t a i ft st = Some st3"
  shows "walk_inv sch I st3 \<and> evolves sch I st st3 \<and> wired sch st3 t a i"
proof -
  from assms(4) obtain v old where v: "canonical st ft = Some v"
    and old: "get_field (heap st) t a i = Some old"
    and st3: "st3 = st\<lparr>heap := set_field (heap st) t a i v, trace := trace st @ [Assigned t a i v]\<rparr>"
    by (auto simp: wire_def split: option.splits)
  have ok: "slots_ok sch st" using assms(1) by (simp add: walk_inv_def)
  have l: "load (heap st3) rv = Some w"
    if "visited st ft' = Some rv" "load (heap st) rv = Some w" for ft' rv w
  proof (cases rv)
    case (RNew p)
    with that show ?thesis by simp
  next
    case (RField t' a' i')
    show ?thesis
    proof (cases "t' = t \<and> a' = a \<and> i' = i")
      case True
      with ok that(1) RField have "field_type sch t i = Some ft'" by (auto simp: slots_ok_def)
      with assms(2) have "ft' = ft" by simp
      with v that have "w = v" by (simp add: canonical_def)
      with True RField old show ?thesis by (simp add: st3 get_set_field)
    next
      case False
      with that RField show ?thesis by (auto simp: st3 get_set_field)
    qed
  qed
  have c: "canonical st3 ft' = Some w" if "canonical st ft' = Some w" for ft' w
    using that l [of ft'] by (auto simp: canonical_def st3 split: option.splits)
  have g: "get_field (heap st3) t a i = Some v" using old by (simp add: st3 get_set_field)
  have w: "wired sch st3 t a i"
    using assms(2) g c [OF v] by (simp add: wired_def)
  have e: "evolves sch I st st3"
    unfolding evolves_def
  proof (intro conjI allI impI)
    fix ft' rv assume "visited st ft' = Some rv"
    then show "visited st3 ft' = Some rv" by (simp add: st3)
  next
    fix ft' v' assume "canonical st ft' = Some v'"
    then show "canonical st3 ft' = Some v'" by (rule c)
  next
    fix t' a' i' v' assume "get_field (heap st) t' a' i' = Some v'"
    then show "get_field (heap st3) t' a' i' = Some v' \<or>
               (wired sch st3 t' a' i' \<and> shared_field sch I t' i')"
      using w assms(2,3) by (cases "t' = t \<and> a' = a \<and> i' = i")
        (auto simp: shared_field_def st3 get_set_field)
  next
    show "\<exists>tr. trace st3 = trace st @ tr" by (simp add: st3)
  qed
  have s: "slots_ok sch st3"
    using ok unfolding slots_ok_def by (auto simp: st3 get_set_field)
  have t: "trace_ok sch I st3"
    unfolding trace_ok_def
  proof
    fix ev assume "ev \<in> set (trace st3)"
    then consider "ev \<in> set (trace st)" | "ev = Assigned t a i v" by (auto simp: st3)
    then show "case ev of Called c e \<Rightarrow> node_wired sch I st3 c \<and> well_formed sch I c
       | Assigned t a i v \<Rightarrow> shared_field sch I t i \<and> wired sch st3 t a i \<and>
           get_field (heap st3) t a i = Some v"
    proof cases
      case 1
      with assms(1) evolves_node_wired [OF e] evolves_wired [OF e] evolves_assigned [OF e]
      show ?thesis by (auto simp: walk_inv_def trace_ok_def split: event.splits)
    next
      case 2
      with w g assms(2,3) show ?thesis by (simp add: shared_field_def)
    qed
  qed
  have "\<forall>ft rv. visited st3 ft = Some rv \<longrightarrow> I ft \<and> is_Ptr ft"
    using assms(1) by (simp add: walk_inv_def st3)
  with s t e w show ?thesis by (simp add: walk_inv_def)
qed

lemma walk_fields_skip:
  "\<not> I (TPtr (Type ff)) \<Longrightarrow> \<not> I (Type ff) \<Longrightarrow>
   walk_fields n sch I fn t a i (ff # rest) st = walk_fields n sch I fn t a (Suc i) rest st"
  by (simp add: Let_def)

lemma walk_fields_seen:
  "accepted I ff \<Longrightarrow> visited st (Type ff) = Some rv \<Longrightarrow>
   walk_fields n sch I fn t a i (ff # rest) st =
     (case wire t a i (Type ff) st of
        None \<Rightarrow> Some (Panicked Fault, st)
      | Some st3 \<Rightarrow> walk_fields n sch I fn t a (Suc i) rest st3)"
  by (simp add: accepted_def Let_def)

lemma walk_fields_first:
  "accepted I ff \<Longrightarrow> visited st (Type ff) = None \<Longrightarrow>
   register sch t a i (Type ff) st = Some st1 \<Longrightarrow> canonical st1 (Type ff) = Some p \<Longrightarrow>
   walk_fields n sch I fn t a i (ff # rest) st =
     (case walker n sch I fn (Type ff, p) st1 of
        None \<Rightarrow> None
      | Some (Done, st2) \<Rightarrow>
          (case wire t a i (Type ff) st2 of
             None \<Rightarrow> Some (Panicked Fault, st2)
           | Some st3 \<Rightarrow> walk_fields n sch I fn t a (Suc i) rest st3)
      | Some (r, st2) \<Rightarrow> Some (r, st2))"
  by (simp add: accepted_def Let_def)

lemma walk_fields_rejected:
  "\<not> accepted I ff \<Longrightarrow> I (TPtr (Type ff)) \<or> I (Type ff) \<Longrightarrow>
   \<exists>p. walk_fields n sch I fn t a i (ff # rest) st = Some (Panicked p, st)"
  by (auto simp: accepted_def Let_def)

lemma walk_fields_no_register:
  "accepted I ff \<Longrightarrow> visited st (Type ff) = None \<Longrightarrow>
   register sch t a i (Type ff) st = None \<Longrightarrow>
   walk_fields n sch I fn t a i (ff # rest) st = Some (Panicked Fault, st)"
  by (simp add: accepted_def Let_def)

lemma walker_Suc_struct:
  "walker (Suc n) sch I fn (TPtr (TStruct s), Ptr a) st =
     (case walk_fields n sch I fn (TStruct s) a 0 (fields_of sch s) st of
        None \<Rightarrow> None
      | Some (Done, st1) \<Rightarrow> Some (call_fn fn (TPtr (TStruct s), Ptr a) st1)
      | Some (r, st1) \<Rightarrow> Some (r, st1))"
  by simp

lemma walker_Suc_other:
  "(\<And>s a. c \<noteq> (TPtr (TStruct s), Ptr a)) \<Longrightarrow>
   walker (Suc n) sch I fn c st = Some (Panicked ReflectPanic, st)"
  by (auto split: prod.splits ty.splits val.splits)

lemma drop_eq_Cons:
  assumes "drop i xs = y # ys"
  shows "i < length xs" "xs ! i = y" "drop (Suc i) xs = ys"
proof -
  show l: "i < length xs" using assms by (cases "i < length xs") auto
  from Cons_nth_drop_Suc [OF l] assms show "xs ! i = y" "drop (Suc i) xs = ys" by auto
qed

lemma call_fn_step:
  assumes "walk_inv sch I st" "node_wired sch I st c" "well_formed sch I c"
    and "call_fn fn c st = (r, st')"
  shows "walk_inv sch I st' \<and> evolves sch I st st'"
proof -
  from assms(4) obtain err vs where
    st': "st' = st\<lparr>trace := trace st @ [Called c err], vstate := vs\<rparr>"
    by (auto simp: call_fn_def split: prod.splits)
  have w: "\<And>t a i. wired sch st' t a i = wired sch st t a i"
    by (simp add: wired_def canonical_def st' cong: option.case_cong)
  have n: "\<And>c. node_wired sch I st' c = node_wired sch I st c"
    by (simp add: node_wired_iff w)
  have "trace_ok sch I st'"
    using assms(1,2,3) unfolding walk_inv_def trace_ok_def
    by (auto simp: w n split: event.splits) (auto simp: st')
  moreover have "slots_ok sch st'" using assms(1) by (simp add: walk_inv_def slots_ok_def st')
  moreover have "\<forall>ft rv. visited st' ft = Some rv \<longrightarrow> I ft \<and> is_Ptr ft"
    using assms(1) by (simp add: walk_inv_def st')
  moreover have "evolves sch I st st'"
    by (simp add: evolves_def canonical_def st' cong: option.case_cong)
  ultimately show ?thesis by (simp add: walk_inv_def)
qed

lemma walk_fields_sound:
  assumes w: "walker_sound n sch I (fn :: ('s, 'e) WalkFn)"
  shows "walk_inv sch I st \<Longrightarrow> drop i (struct_fields sch t) = fs \<Longrightarrow>
         walk_fields n sch I fn t a i fs st = Some (r, st') \<Longrightarrow>
         walk_inv sch I st' \<and> evolves sch I st st' \<and>
         (r = Done \<longrightarrow> (\<forall>j\<ge>i. shared_field sch I t j \<longrightarrow> wired sch st' t a j) \<and>
                     (\<forall>ff\<in>set fs. \<not> rejected I ff))"
proof (induction fs arbitrary: i st)
  case Nil
  then have "length (struct_fields sch t) \<le> i" by simp
  then have "\<And>j. j \<ge> i \<Longrightarrow> \<not> shared_field sch I t j"
    by (simp add: shared_field_def field_type_def)
  with Nil show ?case by (auto simp: evolves_refl)
next
  case (Cons ff rest)
  note d = drop_eq_Cons [OF Cons.prems(2)]
  have ft: "field_type sch t i = Some (Type ff)" using d by (simp add: field_type_def)
  have tail: "walk_inv sch I st' \<and> evolves sch I st st' \<and>
         (r = Done \<longrightarrow> (\<forall>j\<ge>i. shared_field sch I t j \<longrightarrow> wired sch st' t a j) \<and>
                     (\<forall>ff\<in>set (ff # rest). \<not> rejected I ff))"
    if i2: "walk_inv sch I st2" and e2: "evolves sch I st st2"
      and acc: "I (Type ff)" and nr: "\<not> rejected I ff"
      and res: "(case wire t a i (Type ff) st2 of
             None \<Rightarrow> Some (Panicked Fault, st2)
           | Some st3 \<Rightarrow> walk_fields n sch I fn t a (Suc i) rest st3) = Some (r, st')" for st2
  proof (cases "wire t a i (Type ff) st2")
    case None
    with res i2 e2 show ?thesis by auto
  next
    case (Some st3)
    from wire_step [OF i2 ft acc Some]
    have i3: "walk_inv sch I st3" and e3: "evolves sch I st2 st3" and w3: "wired sch st3 t a i" by auto
    from res Some have "walk_fields n sch I fn t a (Suc i) rest st3 = Some (r, st')" by simp
    from Cons.IH [OF i3 d(3) this]
    have i': "walk_inv sch I st'" and e': "evolves sch I st3 st'"
      and w': "r = Done \<longrightarrow> (\<forall>j\<ge>Suc i. shared_field sch I t j \<longrightarrow> wired sch st' t a j)"
      and v': "r = Done \<longrightarrow> (\<forall>ff\<in>set rest. \<not> rejected I ff)" by auto
    have "wired sch st' t a i" using evolves_wired [OF e' w3] .
    with w' have "r = Done \<longrightarrow> (\<forall>j\<ge>i. shared_field sch I t j \<longrightarrow> wired sch st' t a j)"
      by (metis Suc_leI le_neq_implies_less)
    with i' evolves_trans [OF e2 evolves_trans [OF e3 e']] v' nr show ?thesis by simp
  qed
  show ?case
  proof (cases "accepted I ff")
    case False
    show ?thesis
    proof (cases "I (TPtr (Type ff)) \<or> I (Type ff)")
      case True
      from walk_fields_rejected [OF False True, of n sch fn t a i rest st] Cons.prems
      show ?thesis by (auto simp: evolves_refl)
    next
      case False
      then have skip: "walk_fields n sch I fn t a (Suc i) rest st = Some (r, st')"
        using Cons.prems(3) by (simp add: Let_def)
      from Cons.IH [OF Cons.prems(1) d(3) skip]
      have i': "walk_inv sch I st'" and e': "evolves sch I st st'"
        and w': "r = Done \<longrightarrow> (\<forall>j\<ge>Suc i. shared_field sch I t j \<longrightarrow> wired sch st' t a j)"
        and v': "r = Done \<longrightarrow> (\<forall>ff\<in>set rest. \<not> rejected I ff)" by auto
      have "\<not> shared_field sch I t i" using False ft by (simp add: shared_field_def)
      with w' have "r = Done \<longrightarrow> (\<forall>j\<ge>i. shared_field sch I t j \<longrightarrow> wired sch st' t a j)"
        by (metis Suc_leI le_neq_implies_less)
      moreover have "\<not> rejected I ff" using False by (simp add: rejected_def)
      ultimately show ?thesis using i' e' v' by simp
    qed
  next
    case True
    then have acc: "I (Type ff)" and ptr: "is_Ptr (Type ff)" and nr: "\<not> rejected I ff"
      by (auto simp: accepted_def rejected_def)
    show ?thesis
    proof (cases "visited st (Type ff)")
      case (Some rv)
      from Cons.prems(3) show ?thesis
        unfolding walk_fields_seen [OF True Some]
        by (rule tail [OF Cons.prems(1) evolves_refl acc nr])
    next
      case None
      show ?thesis
      proof (cases "register sch t a i (Type ff) st")
        case None': None
        from Cons.prems(1,3) show ?thesis
          unfolding walk_fields_no_register [OF True None None'] by (auto simp: evolves_refl)
      next
        case (Some st1)
        from register_step [OF Cons.prems(1) None ft Some acc ptr]
        obtain p where i1: "walk_inv sch I st1" and e1: "evolves sch I st st1"
          and p: "canonical st1 (Type ff) = Some p" by auto
        note eq = walk_fields_first [OF True None Some p, of n fn rest]
        show ?thesis
        proof (cases "walker n sch I fn (Type ff, p) st1")
          case None'': None
          with Cons.prems(3) show ?thesis unfolding eq by simp
        next
          case Some': (Some res)
          obtain r2 st2 where res: "res = (r2, st2)" by (cases res)
          from w i1 Some' res have i2: "walk_inv sch I st2" and e2: "evolves sch I st1 st2"
            by (auto simp: walker_sound_def)
          show ?thesis
          proof (cases "r2 = Done")
            case True
            from Cons.prems(3) have "(case wire t a i (Type ff) st2 of
                 None \<Rightarrow> Some (Panicked Fault, st2)
               | Some st3 \<Rightarrow> walk_fields n sch I fn t a (Suc i) rest st3) = Some (r, st')"
              unfolding eq Some' res True by simp
            from tail [OF i2 evolves_trans [OF e1 e2] acc nr this] show ?thesis .
          next
            case False
            with Cons.prems(3) have "r = r2" "st' = st2"
              unfolding eq Some' res by (cases r2; simp)+
            with False i2 evolves_trans [OF e1 e2] show ?thesis by simp
          qed
        qed
      qed
    qed
  qed
qed

lemma walker_is_sound: "walker_sound n sch I fn"
proof (induction n)
  case 0
  show ?case by (simp add: walker_sound_def)
next
  case (Suc n)
  show ?case
    unfolding walker_sound_def
  proof (intro allI impI)
    fix c st r st'
    assume i: "walk_inv sch I st" and run: "walker (Suc n) sch I fn c st = Some (r, st')"
    show "walk_inv sch I st' \<and> evolves sch I st st'"
    proof (cases "\<exists>s a. c = (TPtr (TStruct s), Ptr a)")
      case False
      then have "walker (Suc n) sch I fn c st = Some (Panicked ReflectPanic, st)"
        by (intro walker_Suc_other) auto
      with run i show ?thesis by (auto simp: evolves_refl)
    next
      case True
      then obtain s a where c: "c = (TPtr (TStruct s), Ptr a)" by auto
      show ?thesis
      proof (cases "walk_fields n sch I fn (TStruct s) a 0 (fields_of sch s) st")
        case None
        with run show ?thesis by (simp add: c)
      next
        case (Some res)
        obtain r1 st1 where res: "res = (r1, st1)" by (cases res)
        have "drop 0 (struct_fields sch (TStruct s)) = fields_of sch s" by simp
        from walk_fields_sound [OF Suc i this Some [unfolded res]]
        have i1: "walk_inv sch I st1" and e1: "evolves sch I st st1"
          and w1: "r1 = Done \<longrightarrow> (\<forall>j. shared_field sch I (TStruct s) j \<longrightarrow> wired sch st1 (TStruct s) a j)"
          and v1: "r1 = Done \<longrightarrow> (\<forall>ff\<in>set (fields_of sch s). \<not> rejected I ff)"
          by auto
        show ?thesis
        proof (cases "r1 = Done")
          case True
          with run Some res have call: "call_fn fn c st1 = (r, st')" by (simp add: c)
          from True w1 have nw: "node_wired sch I st1 c"
            by (simp add: node_wired_iff c)
          from True v1 have "well_formed sch I c"
            by (simp add: well_formed_def c list_all_iff)
          from call_fn_step [OF i1 nw this call] e1 show ?thesis by (auto intro: evolves_trans)
        next
          case False
          with run Some res have "r = r1" "st' = st1" by (cases r1; simp add: c)+
          with i1 e1 show ?thesis by simp
        qed
      qed
    qed
  qed
qed

lemma register_canonical:
  "register sch t a i ft st = Some st1 \<Longrightarrow> \<exists>p. canonical st1 ft = Some p"
  by (auto simp: register_def canonical_def New_def split: option.splits if_splits)

lemma walk_fields_Cons_cases [consumes 1, case_names reject skip seen seen_fault first first_fault nested no_slot]:
  assumes run: "walk_fields n sch I fn t a i (ff # rest) st = Some (r, st')"
  obtains
    (reject) "rejected I ff" "st' = st"
      "r = Panicked (if I (TPtr (Type ff)) \<or> \<not> is_Ptr (Type ff)
                     then must_be_a_pointer (Name ff) t else must_not_be_anonymous (Name ff) t)"
  | (skip) "\<not> I (TPtr (Type ff))" "\<not> I (Type ff)"
      "walk_fields n sch I fn t a (Suc i) rest st = Some (r, st')"
  | (seen) rv st3 where "accepted I ff" "visited st (Type ff) = Some rv"
      "wire t a i (Type ff) st = Some st3"
      "walk_fields n sch I fn t a (Suc i) rest st3 = Some (r, st')"
  | (seen_fault) rv where "accepted I ff" "visited st (Type ff) = Some rv"
      "wire t a i (Type ff) st = None" "r = Panicked Fault" "st' = st"
  | (first) st1 p st2 st3 where "accepted I ff" "visited st (Type ff) = None"
      "register sch t a i (Type ff) st = Some st1" "canonical st1 (Type ff) = Some p"
      "walker n sch I fn (Type ff, p) st1 = Some (Done, st2)"
      "wire t a i (Type ff) st2 = Some st3"
      "walk_fields n sch I fn t a (Suc i) rest st3 = Some (r, st')"
  | (first_fault) st1 p st2 where "accepted I ff" "visited st (Type ff) = None"
      "register sch t a i (Type ff) st = Some st1" "canonical st1 (Type ff) = Some p"
      "walker n sch I fn (Type ff, p) st1 = Some (Done, st2)"
      "wire t a i (Type ff) st2 = None" "r = Panicked Fault" "st' = st2"
  | (nested) st1 p where "accepted I ff" "visited st (Type ff) = None"
      "register sch t a i (Type ff) st = Some st1" "canonical st1 (Type ff) = Some p"
      "walker n sch I fn (Type ff, p) st1 = Some (r, st')" "r \<noteq> Done"
  | (no_slot) "accepted I ff" "visited st (Type ff) = None"
      "register sch t a i (Type ff) st = None" "r = Panicked Fault" "st' = st"
proof (cases "accepted I ff")
  case False
  show ?thesis
  proof (cases "I (TPtr (Type ff)) \<or> I (Type ff)")
    case True
    with False have "rejected I ff" by (auto simp: accepted_def rejected_def)
    moreover from run True False have "st' = st"
      "r = Panicked (if I (TPtr (Type ff)) \<or> \<not> is_Ptr (Type ff)
                     then must_be_a_pointer (Name ff) t else must_not_be_anonymous (Name ff) t)"
      by (auto simp: accepted_def Let_def split: if_splits)
    ultimately show ?thesis by (rule reject)
  next
    case False
    with run show ?thesis by (intro skip) (auto simp: Let_def)
  qed
next
  case True
  show ?thesis
  proof (cases "visited st (Type ff)")
    case (Some rv)
    note eq = walk_fields_seen [OF True Some, of n sch fn t a i rest]
    show ?thesis
    proof (cases "wire t a i (Type ff) st")
      case Wn: None
      with run eq show ?thesis by (intro seen_fault [OF True Some]) auto
    next
      case Some': (Some st3)
      with run eq show ?thesis by (intro seen [OF True Some Some']) auto
    qed
  next
    case None
    show ?thesis
    proof (cases "register sch t a i (Type ff) st")
      case None': None
      from run walk_fields_no_register [OF True None None', of n fn rest]
      show ?thesis by (intro no_slot [OF True None None']) auto
    next
      case (Some st1)
      from register_canonical [OF Some] obtain p where p: "canonical st1 (Type ff) = Some p" ..
      note eq = walk_fields_first [OF True None Some p, of n fn rest]
      show ?thesis
      proof (cases "walker n sch I fn (Type ff, p) st1")
        case None'': None
        with run eq show ?thesis by simp
      next
        case Some'': (Some res)
        obtain r2 st2 where res: "res = (r2, st2)" by (cases res)
        show ?thesis
        proof (cases "r2 = Done")
          case False
          with run eq Some'' res have "r = r2" "st' = st2" by (cases r2; simp)+
          with False Some'' res show ?thesis by (intro nested [OF True None Some p]) auto
        next
          case Done: True
          show ?thesis
          proof (cases "wire t a i (Type ff) st2")
            case Wn: None
            with run eq Some'' res Done show ?thesis
              by (intro first_fault [OF True None Some p, of st2]) auto
          next
            case W: (Some st3)
            with run eq Some'' res Done show ?thesis
              by (intro first [OF True None Some p, of st2 st3]) auto
          qed
        qed
      qed
    qed
  qed
qed

lemma walker_Suc_cases [consumes 1, case_names other abort call]:
  assumes run: "walker (Suc n) sch I fn c st = Some (r, st')"
  obtains
    (other) "\<And>s a. c \<noteq> (TPtr (TStruct s), Ptr a)" "r = Panicked ReflectPanic" "st' = st"
  | (abort) s a where "c = (TPtr (TStruct s), Ptr a)"
      "walk_fields n sch I fn (TStruct s) a 0 (fields_of sch s) st = Some (r, st')" "r \<noteq> Done"
  | (call) s a st1 where "c = (TPtr (TStruct s), Ptr a)"
      "walk_fields n sch I fn (TStruct s) a 0 (fields_of sch s) st = Some (Done, st1)"
      "call_fn fn c st1 = (r, st')"
proof (cases "\<exists>s a. c = (TPtr (TStruct s), Ptr a)")
  case False
  then have n: "\<And>s a. c \<noteq> (TPtr (TStruct s), Ptr a)" by auto
  from run walker_Suc_other [OF n, of n sch I fn st] show ?thesis by (intro other [OF n]) auto
next
  case True
  then obtain s a where c: "c = (TPtr (TStruct s), Ptr a)" by auto
  show ?thesis
  proof (cases "walk_fields n sch I fn (TStruct s) a 0 (fields_of sch s) st")
    case None
    with run c show ?thesis by simp
  next
    case (Some res)
    obtain r1 st1 where res: "res = (r1, st1)" by (cases res)
    show ?thesis
    proof (cases "r1 = Done")
      case True
      with run c Some res show ?thesis by (intro call [OF c, of st1]) auto
    next
      case False
      with run c Some res have "r = r1" "st' = st1" by (cases r1; simp)+
      with False Some res show ?thesis by (intro abort [OF c]) auto
    qed
  qed
qed


lemma walk_induct_aux:
  fixes P :: "nat \<Rightarrow> iface \<Rightarrow> ('s, 'e) state \<Rightarrow> 'e result \<Rightarrow> ('s, 'e) state \<Rightarrow> bool"
    and Q :: "nat \<Rightarrow> ty \<Rightarrow> nat \<Rightarrow> nat \<Rightarrow> StructField list \<Rightarrow> ('s, 'e) state \<Rightarrow> 'e result
                \<Rightarrow> ('s, 'e) state \<Rightarrow> bool"
  assumes bad_arg: "\<And>n c st. (\<And>s a. c \<noteq> (TPtr (TStruct s), Ptr a)) \<Longrightarrow>
      P (Suc n) c st (Panicked ReflectPanic) st"
    and abort: "\<And>n s a st r st'.
      walk_fields n sch I fn (TStruct s) a 0 (fields_of sch s) st = Some (r, st') \<Longrightarrow> r \<noteq> Done \<Longrightarrow>
      Q n (TStruct s) a 0 (fields_of sch s) st r st' \<Longrightarrow>
      P (Suc n) (TPtr (TStruct s), Ptr a) st r st'"
    and call: "\<And>n s a st st1 r st'.
      walk_fields n sch I fn (TStruct s) a 0 (fields_of sch s) st = Some (Done, st1) \<Longrightarrow>
      Q n (TStruct s) a 0 (fields_of sch s) st Done st1 \<Longrightarrow>
      call_fn fn (TPtr (TStruct s), Ptr a) st1 = (r, st') \<Longrightarrow>
      P (Suc n) (TPtr (TStruct s), Ptr a) st r st'"
    and nil: "\<And>n t a i st. Q n t a i [] st Done st"
    and reject: "\<And>n t a i ff rest st. rejected I ff \<Longrightarrow>
      Q n t a i (ff # rest) st
        (Panicked (if I (TPtr (Type ff)) \<or> \<not> is_Ptr (Type ff)
                   then must_be_a_pointer (Name ff) t else must_not_be_anonymous (Name ff) t)) st"
    and skip: "\<And>n t a i ff rest st r st'. \<not> I (TPtr (Type ff)) \<Longrightarrow> \<not> I (Type ff) \<Longrightarrow>
      walk_fields n sch I fn t a (Suc i) rest st = Some (r, st') \<Longrightarrow>
      Q n t a (Suc i) rest st r st' \<Longrightarrow> Q n t a i (ff # rest) st r st'"
    and seen: "\<And>n t a i ff rest st rv st3 r st'. accepted I ff \<Longrightarrow>
      visited st (Type ff) = Some rv \<Longrightarrow> wire t a i (Type ff) st = Some st3 \<Longrightarrow>
      walk_fields n sch I fn t a (Suc i) rest st3 = Some (r, st') \<Longrightarrow>
      Q n t a (Suc i) rest st3 r st' \<Longrightarrow> Q n t a i (ff # rest) st r st'"
    and seen_fault: "\<And>n t a i ff rest st rv. accepted I ff \<Longrightarrow>
      visited st (Type ff) = Some rv \<Longrightarrow> wire t a i (Type ff) st = None \<Longrightarrow>
      Q n t a i (ff # rest) st (Panicked Fault) st"
    and first: "\<And>n t a i ff rest st st1 p st2 st3 r st'. accepted I ff \<Longrightarrow>
      visited st (Type ff) = None \<Longrightarrow> register sch t a i (Type ff) st = Some st1 \<Longrightarrow>
      canonical st1 (Type ff) = Some p \<Longrightarrow>
      walker n sch I fn (Type ff, p) st1 = Some (Done, st2) \<Longrightarrow>
      P n (Type ff, p) st1 Done st2 \<Longrightarrow> wire t a i (Type ff) st2 = Some st3 \<Longrightarrow>
      walk_fields n sch I fn t a (Suc i) rest st3 = Some (r, st') \<Longrightarrow>
      Q n t a (Suc i) rest st3 r st' \<Longrightarrow> Q n t a i (ff # rest) st r st'"
    and first_fault: "\<And>n t a i ff rest st st1 p st2. accepted I ff \<Longrightarrow>
      visited st (Type ff) = None \<Longrightarrow> register sch t a i (Type ff) st = Some st1 \<Longrightarrow>
      canonical st1 (Type ff) = Some p \<Longrightarrow>
      walker n sch I fn (Type ff, p) st1 = Some (Done, st2) \<Longrightarrow>
      P n (Type ff, p) st1 Done st2 \<Longrightarrow> wire t a i (Type ff) st2 = None \<Longrightarrow>
      Q n t a i (ff # rest) st (Panicked Fault) st2"
    and nested: "\<And>n t a i ff rest st st1 p r st'. accepted I ff \<Longrightarrow>
      visited st (Type ff) = None \<Longrightarrow> register sch t a i (Type ff) st = Some st1 \<Longrightarrow>
      canonical st1 (Type ff) = Some p \<Longrightarrow>
      walker n sch I fn (Type ff, p) st1 = Some (r, st') \<Longrightarrow> r \<noteq> Done \<Longrightarrow>
      P n (Type ff, p) st1 r st' \<Longrightarrow> Q n t a i (ff # rest) st r st'"
    and no_slot: "\<And>n t a i ff rest st. accepted I ff \<Longrightarrow>
      visited st (Type ff) = None \<Longrightarrow> register sch t a i (Type ff) st = None \<Longrightarrow>
      Q n t a i (ff # rest) st (Panicked Fault) st"
  shows "walker n sch I fn c st = Some (r, st') \<Longrightarrow> P n c st r st'"
    and "walk_fields n sch I fn t a i fs st = Some (r, st') \<Longrightarrow> Q n t a i fs st r st'"
proof -
  have fields: "Q n t a i fs st r st'"
    if w: "\<And>c st r st'. walker n sch I fn c st = Some (r, st') \<Longrightarrow> P n c st r st'"
      and run: "walk_fields n sch I fn t a i fs st = Some (r, st')"
    for n t a i fs st r st'
    using run
  proof (induction fs arbitrary: i st)
    case Nil
    then show ?case using nil by simp
  next
    case (Cons ff rest)
    from Cons.prems show ?case
    proof (cases rule: walk_fields_Cons_cases)
      case reject
      from assms(5) [OF reject(1), of n t a i rest st] reject(2,3) show ?thesis by simp
    next
      case skip
      from assms(6) [OF skip(1,2,3) Cons.IH [OF skip(3)]] show ?thesis .
    next
      case (seen rv st3)
      from assms(7) [OF seen(1,2,3,4) Cons.IH [OF seen(4)]] show ?thesis .
    next
      case (seen_fault rv)
      with assms(8) [OF seen_fault(1,2,3)] show ?thesis by simp
    next
      case (first st1 p st2 st3)
      from assms(9) [OF first(1,2,3,4,5) w [OF first(5)] first(6,7) Cons.IH [OF first(7)]]
      show ?thesis .
    next
      case (first_fault st1 p st2)
      with assms(10) [OF first_fault(1,2,3,4,5) w [OF first_fault(5)] first_fault(6)]
      show ?thesis by simp
    next
      case (nested st1 p)
      from assms(11) [OF nested(1,2,3,4,5,6) w [OF nested(5)]] show ?thesis .
    next
      case no_slot
      with assms(12) [OF no_slot(1,2,3)] show ?thesis by simp
    qed
  qed
  have walk: "\<And>c st r st'. walker n sch I fn c st = Some (r, st') \<Longrightarrow> P n c st r st'" for n
  proof (induction n)
    case 0
    then show ?case by simp
  next
    case (Suc n)
    from Suc.prems show ?case
    proof (cases rule: walker_Suc_cases)
      case other
      from assms(1) [OF other(1), of n st] other(2,3) show ?thesis by simp
    next
      case (abort s a)
      with assms(2) [OF abort(2,3) fields [OF Suc.IH abort(2)]] show ?thesis by simp
    next
      case (call s a st1)
      with assms(3) [OF call(2) fields [OF Suc.IH call(2)], of r st'] show ?thesis by simp
    qed
  qed
  show "walker n sch I fn c st = Some (r, st') \<Longrightarrow> P n c st r st'" by (rule walk)
  show "walk_fields n sch I fn t a i fs st = Some (r, st') \<Longrightarrow> Q n t a i fs st r st'"
    by (rule fields [OF walk])
qed

lemmas walk_induct [consumes 1, case_names bad_arg abort call nil reject skip seen seen_fault
    first first_fault nested no_slot] = walk_induct_aux [rotated -1]

lemma register_trace: "register sch t a i ft st = Some st1 \<Longrightarrow> trace st1 = trace st"
  by (auto simp: register_def split: option.splits if_splits prod.splits)

lemma wire_trace:
  "wire t a i ft st = Some st3 \<Longrightarrow> \<exists>v. trace st3 = trace st @ [Assigned t a i v]"
  by (auto simp: wire_def split: option.splits)

lemma call_fn_cases:
  assumes "call_fn fn c st = (r, st')"
  obtains err where "trace st' = trace st @ [Called c err]" "heap st' = heap st"
    "visited st' = visited st" "r = (case err of None \<Rightarrow> Done | Some e \<Rightarrow> Failed e)"
    "fn (vstate st) (heap st) c = (err, vstate st')"
  using assms by (auto simp: call_fn_def split: prod.splits)

lemma walker_stopped:
  "walker n sch I fn c st = Some (r, st') \<Longrightarrow> clean (trace st) \<longrightarrow> stopped fn r st'"
  and walk_fields_stopped:
  "walk_fields n sch I fn t a i fs st = Some (r, st') \<Longrightarrow> clean (trace st) \<longrightarrow> stopped fn r st'"
proof (induct rule: walk_induct)
  case (call n s a st st1 r st')
  show ?case
  proof
    assume "clean (trace st)"
    with call(2) have c1: "clean (trace st1)" by (simp add: stopped_def)
    from call(3) show "stopped fn r st'"
    proof (cases rule: call_fn_cases)
      case (1 err)
      show ?thesis
      proof (cases err)
        case None
        with 1 c1 show ?thesis by (auto simp: stopped_def clean_def)
      next
        case (Some e)
        with 1 have "r = Failed e" by simp
        with call(3) c1 show ?thesis unfolding stopped_def by auto
      qed
    qed
  qed
next
  case (seen n t a i ff rest st rv st3 r st')
  from wire_trace [OF seen(3)] seen(5) show ?case by (auto simp: clean_def)
next
  case (first n t a i ff rest st st1 p st2 st3 r st')
  from register_trace [OF first(3)] first(6) wire_trace [OF first(7)] first(9)
  show ?case by (auto simp: clean_def stopped_def)
next
  case (first_fault n t a i ff rest st st1 p st2)
  from register_trace [OF first_fault(3)] first_fault(6)
  show ?case by (auto simp: clean_def stopped_def)
next
  case (nested n t a i ff rest st st1 p r st')
  from register_trace [OF nested(3)] nested(7) show ?case by simp
qed (auto simp: stopped_def)





lemma register_dom:
  "register sch t a i ft st = Some st1 \<Longrightarrow> dom (visited st1) = insert ft (dom (visited st))"
  by (auto simp: register_def split: option.splits if_splits prod.splits)

lemma wire_visited: "wire t a i ft st = Some st3 \<Longrightarrow> visited st3 = visited st"
  by (auto simp: wire_def split: option.splits)

















text \<open>
  From here on the two equations of the walker are used through the case rules above.
\<close>

declare walker.simps(2) [simp del] walk_fields.simps(2) [simp del]

lemma walk_fields_reject_eq:
  "rejected I ff \<Longrightarrow>
   walk_fields n sch I fn t a i (ff # rest) st =
     Some (Panicked (if I (TPtr (Type ff)) \<or> \<not> is_Ptr (Type ff)
                     then must_be_a_pointer (Name ff) t
                     else must_not_be_anonymous (Name ff) t), st)"
  by (auto simp: rejected_def Let_def walk_fields.simps(2))

lemma walker_dom:
  "walker n sch I fn c st = Some (r, st') \<Longrightarrow> dom (visited st) \<subseteq> dom (visited st')"
  and walk_fields_dom:
  "walk_fields n sch I fn t a i fs st = Some (r, st') \<Longrightarrow> dom (visited st) \<subseteq> dom (visited st')"
proof (induct rule: walk_induct)
  case (call n s a st st1 r st')
  from call(3) have "visited st' = visited st1" by (rule call_fn_cases)
  with call(2) show ?case by simp
next
  case (seen n t a i ff rest st rv st3 r st')
  with wire_visited [OF seen(3)] show ?case by simp
next
  case (first n t a i ff rest st st1 p st2 st3 r st')
  from register_dom [OF first(3)] have "dom (visited st) \<subseteq> dom (visited st1)" by blast
  also note first(6)
  also from wire_visited [OF first(7)] have "dom (visited st2) = dom (visited st3)" by simp
  also note first(9)
  finally show ?case .
next
  case (first_fault n t a i ff rest st st1 p st2)
  from register_dom [OF first_fault(3)] have "dom (visited st) \<subseteq> dom (visited st1)" by blast
  with first_fault(6) show ?case by blast
next
  case (nested n t a i ff rest st st1 p r st')
  from register_dom [OF nested(3)] have "dom (visited st) \<subseteq> dom (visited st1)" by blast
  with nested(7) show ?case by blast
qed auto

lemma unseen_mono: "dom (visited st) \<subseteq> dom (visited st') \<Longrightarrow> unseen sch st' \<le> unseen sch st"
  unfolding unseen_def by (rule card_mono) blast+

lemma unseen_register:
  assumes "register sch' t a i ft st = Some st1" "visited st ft = None"
    and "ft \<in> set (field_types sch)"
  shows "unseen sch st1 < unseen sch st"
proof -
  have "set (field_types sch) - dom (visited st1) = (set (field_types sch) - dom (visited st)) - {ft}"
    using register_dom [OF assms(1)] by auto
  moreover have "ft \<in> set (field_types sch) - dom (visited st)"
    using assms(2,3) by (simp add: domIff)
  moreover have "finite (set (field_types sch) - dom (visited st))" by simp
  ultimately show ?thesis
    unfolding unseen_def using card_Diff1_less by metis
qed

lemma fields_of_types: "ff \<in> set (fields_of sch s) \<Longrightarrow> Type ff \<in> set (field_types sch)"
proof -
  assume a: "ff \<in> set (fields_of sch s)"
  then obtain fs where m: "map_of sch s = Some fs" and f: "ff \<in> set fs"
    by (cases "map_of sch s") (auto simp: fields_of_def)
  from map_of_SomeD [OF m] have "fs \<in> snd ` set sch" by force
  with f have "ff \<in> set (concat (map snd sch))" by auto
  then show ?thesis by (simp add: field_types_def)
qed

lemma walk_fields_returns:
  assumes w: "\<And>c st. unseen sch st < n \<Longrightarrow> \<exists>x. walker n sch I fn c st = Some x"
  shows "Type ` set fs \<subseteq> set (field_types sch) \<Longrightarrow> unseen sch st \<le> n \<Longrightarrow>
         \<exists>x. walk_fields n sch I fn t a i fs st = Some x"
proof (induction fs arbitrary: i st)
  case Nil
  show ?case by simp
next
  case (Cons ff rest)
  from Cons.prems(1) have ty: "Type ff \<in> set (field_types sch)"
    and sub: "Type ` set rest \<subseteq> set (field_types sch)" by auto
  have tail: "\<exists>x. (case wire t a i (Type ff) st2 of
             None \<Rightarrow> Some (Panicked Fault, st2)
           | Some st3 \<Rightarrow> walk_fields n sch I fn t a (Suc i) rest st3) = Some x"
    if le: "unseen sch st2 \<le> n" for st2 :: "('a, 'b) state"
  proof (cases "wire t a i (Type ff) st2")
    case None
    then show ?thesis by simp
  next
    case (Some st3)
    from wire_visited [OF Some] le have "unseen sch st3 \<le> n" by (simp add: unseen_def)
    from Cons.IH [OF sub this, of "Suc i"] Some show ?thesis by simp
  qed
  show ?case
  proof (cases "accepted I ff")
    case False
    show ?thesis
    proof (cases "rejected I ff")
      case True
      show ?thesis unfolding walk_fields_reject_eq [OF True] by blast
    next
      case nr: False
      with False have "\<not> I (TPtr (Type ff))" "\<not> I (Type ff)"
        by (auto simp: accepted_def rejected_def)
      then have eq: "walk_fields n sch I fn t a i (ff # rest) st =
          walk_fields n sch I fn t a (Suc i) rest st" by (rule walk_fields_skip)
      show ?thesis unfolding eq by (rule Cons.IH [OF sub Cons.prems(2)])
    qed
  next
    case True
    show ?thesis
    proof (cases "visited st (Type ff)")
      case (Some rv)
      from tail [OF Cons.prems(2)] show ?thesis
        unfolding walk_fields_seen [OF True Some] .
    next
      case None
      show ?thesis
      proof (cases "register sch t a i (Type ff) st")
        case N: None
        show ?thesis unfolding walk_fields_no_register [OF True None N] by blast
      next
        case (Some st1)
        from register_canonical [OF Some] obtain p where p: "canonical st1 (Type ff) = Some p" ..
        from unseen_register [OF Some None ty] Cons.prems(2) have lt: "unseen sch st1 < n" by simp
        from w [OF lt] obtain x where x: "walker n sch I fn (Type ff, p) st1 = Some x" by blast
        obtain r2 st2 where x2: "x = (r2, st2)" by (cases x)
        from walker_dom [OF x [unfolded x2]] lt have "unseen sch st2 \<le> n"
          using unseen_mono [of st1 st2 sch] by simp
        from tail [OF this] x x2 show ?thesis
          unfolding walk_fields_first [OF True None Some p] by (cases r2) simp_all
      qed
    qed
  qed
qed

lemma walker_returns:
  "unseen sch st < n \<Longrightarrow> \<exists>x. walker n sch I fn c st = Some x"
proof (induction n arbitrary: c st)
  case 0
  then show ?case by simp
next
  case (Suc n)
  show ?case
  proof (cases "\<exists>s a. c = (TPtr (TStruct s), Ptr a)")
    case False
    then have "\<And>s a. c \<noteq> (TPtr (TStruct s), Ptr a)" by blast
    from walker_Suc_other [OF this] show ?thesis by blast
  next
    case True
    then obtain s a where c: "c = (TPtr (TStruct s), Ptr a)" by auto
    have "Type ` set (fields_of sch s) \<subseteq> set (field_types sch)"
      using fields_of_types by auto
    from walk_fields_returns [of sch n I fn, OF Suc.IH this, of st "TStruct s" a 0] Suc.prems
    obtain x where x: "walk_fields n sch I fn (TStruct s) a 0 (fields_of sch s) st = Some x"
      by auto
    obtain r1 st1 where "x = (r1, st1)" by (cases x)
    with x show ?thesis unfolding c walker_Suc_struct by (cases r1) simp_all
  qed
qed

lemma walker_more_fuel:
  "walker n sch I fn c st = Some (r, st') \<Longrightarrow> walker (n + k) sch I fn c st = Some (r, st')"
  and walk_fields_more_fuel:
  "walk_fields n sch I fn t a i fs st = Some (r, st') \<Longrightarrow>
   walk_fields (n + k) sch I fn t a i fs st = Some (r, st')"
proof (induct rule: walk_induct)
  case (bad_arg n c st)
  from walker_Suc_other [OF bad_arg, of "n + k"] show ?case by simp
next
  case (abort n s a st r st')
  from abort(2,3) show ?case by (cases r) (simp_all add: walker_Suc_struct)
next
  case (call n s a st st1 r st')
  from call(2,3) show ?case by (simp add: walker_Suc_struct)
next
  case (nil n t a i st)
  show ?case by simp
next
  case (reject n t a i ff rest st)
  then show ?case by (simp only: walk_fields_reject_eq)
next
  case (skip n t a i ff rest st r st')
  from skip(4) show ?case by (simp only: walk_fields_skip [OF skip(1,2)])
next
  case (seen n t a i ff rest st rv st3 r st')
  from seen(3,5) show ?case by (simp add: walk_fields_seen [OF seen(1,2)])
next
  case (seen_fault n t a i ff rest st rv)
  from seen_fault(3) show ?case by (simp add: walk_fields_seen [OF seen_fault(1,2)])
next
  case (first n t a i ff rest st st1 p st2 st3 r st')
  from first(6,7,9) show ?case by (simp add: walk_fields_first [OF first(1,2,3,4)])
next
  case (first_fault n t a i ff rest st st1 p st2)
  from first_fault(6,7) show ?case
    by (simp add: walk_fields_first [OF first_fault(1,2,3,4)])
next
  case (nested n t a i ff rest st st1 p r st')
  from nested(6,7) show ?case
    by (cases r) (simp_all add: walk_fields_first [OF nested(1,2,3,4)])
next
  case (no_slot n t a i ff rest st)
  show ?case by (simp only: walk_fields_no_register [OF no_slot(1,2,3)])
qed

lemma unseen_init: "unseen sch (init h vs) \<le> length (field_types sch)"
proof -
  have "unseen sch (init h vs) \<le> card (set (field_types sch))"
    unfolding unseen_def by (rule card_mono) auto
  also have "\<dots> \<le> length (field_types sch)" by (rule card_length)
  finally show ?thesis .
qed

section \<open>Evaluating the examples\<close>

lemmas walk_eval =
  Walk_def init_def outcome_def final_def field_def embedded_def HasFlags_def visit_nil_def
  empty_heap_def root_def pair_schema_def pair_heap_def pair_walk_def
  visit_fail_Foo_def two_schema_def two_heap_def two_walk_def
  self_schema_def self_heap_def self_walk_def value_schema_def value_heap_def value_walk_def
  cycle_schema_def cycle_heap_def cycle_walk_def field_types_def
  must_be_a_pointer_def must_not_be_anonymous_def
  walker.simps(2) walk_fields.simps(2)
  fields_of_def register_def canonical_def wire_def New_def call_fn_def get_field_def
  set_field_def zero_field_def field_type_def Let_def eval_nat_numeral

section \<open>A walk from the empty registry\<close>

lemma walk_inv_init: "walk_inv sch I (init h vs)"
  by (simp add: walk_inv_def slots_ok_def trace_ok_def init_def)

lemma Walk_sound:
  assumes "Walk n sch I fn c h vs = Some (r, st')"
  shows "walk_inv sch I st'" "evolves sch I (init h vs) st'"
  using walker_is_sound [of n sch I fn] assms walk_inv_init [of sch I h vs]
  unfolding walker_sound_def Walk_def by blast+

lemma Walk_stopped:
  "Walk n sch I fn c h vs = Some (r, st') \<Longrightarrow> stopped fn r st'"
  using walker_stopped [of n sch I fn c "init h vs" r st']
  by (simp add: Walk_def init_def clean_def)


lemma wired_fields_agree:
  assumes "wired sch st t1 a1 i1" "wired sch st t2 a2 i2"
    and "field_type sch t1 i1 = Some ft" "field_type sch t2 i2 = Some ft"
  shows "\<exists>v. get_field (heap st) t1 a1 i1 = Some v \<and> get_field (heap st) t2 a2 i2 = Some v \<and>
             canonical st ft = Some v"
  using assms by (auto simp: wired_def split: option.splits)

section \<open>The properties\<close>

text \<open>
  C1, the sharing invariant. When \<open>Walk\<close> returns nil, take any two nodes the walker
  walked (the visitor was called on both) and on each a field of the same declared type
  \<open>ft\<close> that implements the interface: the two fields hold the same value, which is the
  canonical instance that \<open>visited\<close> keeps for \<open>ft\<close>.
\<close>

theorem sharing_invariant:
  assumes "Walk n sch Implements fn c h vs = Some (Done, st')"
    and "Called (TPtr t1, Ptr a1) e1 \<in> set (trace st')"
    and "Called (TPtr t2, Ptr a2) e2 \<in> set (trace st')"
    and "field_type sch t1 i1 = Some ft" and "field_type sch t2 i2 = Some ft"
    and "Implements ft"
  shows "\<exists>v. get_field (heap st') t1 a1 i1 = Some v \<and>
             get_field (heap st') t2 a2 i2 = Some v \<and>
             canonical st' ft = Some v"
proof -
  have t: "trace_ok sch Implements st'"
    using Walk_sound(1) [OF assms(1)] by (simp add: walk_inv_def)
  from t assms(2) have "node_wired sch Implements st' (TPtr t1, Ptr a1)"
    unfolding trace_ok_def by fastforce
  with assms(4,6) have w1: "wired sch st' t1 a1 i1"
    by (simp add: node_wired_iff shared_field_def)
  from t assms(3) have "node_wired sch Implements st' (TPtr t2, Ptr a2)"
    unfolding trace_ok_def by fastforce
  with assms(5,6) have w2: "wired sch st' t2 a2 i2"
    by (simp add: node_wired_iff shared_field_def)
  from wired_fields_agree [OF w1 w2 assms(4,5)] show ?thesis .
qed

text \<open>
  The root with \<open>A\<close> nil and \<open>B\<close> set: after the walk the visitor has been called on the
  root, and its fields \<open>A\<close> and \<open>B\<close> hold the same instance, the canonical \<open>*Conn\<close>.
\<close>

theorem sharing_invariant_witness:
  "pair_walk NilPtr (Ptr 0) = Some (Done, final (pair_walk NilPtr (Ptr 0))) \<and>
   Called root None \<in> set (trace (final (pair_walk NilPtr (Ptr 0)))) \<and>
   field_type pair_schema (TStruct ''Root'') 0 = Some (TPtr (TStruct ''Conn'')) \<and>
   field_type pair_schema (TStruct ''Root'') 1 = Some (TPtr (TStruct ''Conn'')) \<and>
   HasFlags (TPtr (TStruct ''Conn'')) \<and>
   (\<exists>v. get_field (heap (final (pair_walk NilPtr (Ptr 0)))) (TStruct ''Root'') 0 0 = Some v \<and>
        get_field (heap (final (pair_walk NilPtr (Ptr 0)))) (TStruct ''Root'') 0 1 = Some v \<and>
        canonical (final (pair_walk NilPtr (Ptr 0))) (TPtr (TStruct ''Conn'')) = Some v)"
  using sharing_invariant [of 2 pair_schema HasFlags visit_nil root "pair_heap NilPtr (Ptr 0)" "()"
      "final (pair_walk NilPtr (Ptr 0))"
      "TStruct ''Root''" 0 None "TStruct ''Root''" 0 None 0 "TPtr (TStruct ''Conn'')" 1]
  by (simp add: walk_eval)

text \<open>
  C5, early exit on a visitor error. If some call of the visitor returned an error \<open>e\<close>,
  this call is the last event of the trace: no node is visited and no field is assigned
  after it. \<open>Walk\<close> returns \<open>e\<close> itself, no earlier call had returned an error, and the
  heap \<open>Walk\<close> leaves is the heap the failing call saw.
\<close>

theorem visitor_error_stops_walk:
  assumes "Walk n sch Implements fn c h vs = Some (r, st')"
    and "trace st' = pre @ Called c' (Some e) # post"
  shows "post = [] \<and> r = Failed e \<and> clean pre \<and>
         (\<exists>vs1. fn vs1 (heap st') c' = (Some e, vstate st'))"
proof -
  have "Called c' (Some e) \<in> set (trace st')" using assms(2) by simp
  then have nc: "\<not> clean (trace st')" unfolding clean_def by blast
  from Walk_stopped [OF assms(1)] nc obtain e0 c0 st1 where r: "r = Failed e0"
    and c1: "clean (trace st1)" and cf: "call_fn fn c0 st1 = (Failed e0, st')"
    by (cases r) (auto simp: stopped_def)
  from cf obtain err where tr: "trace st' = trace st1 @ [Called c0 err]"
    and h: "heap st' = heap st1" and f: "fn (vstate st1) (heap st1) c0 = (err, vstate st')"
    and e0: "Failed e0 = (case err of None \<Rightarrow> Done | Some e \<Rightarrow> Failed e)"
    by (rule call_fn_cases)
  from e0 have err: "err = Some e0" by (cases err) auto
  have post: "post = []"
  proof (rule ccontr)
    assume "post \<noteq> []"
    then obtain post' x where "post = post' @ [x]" by (metis rev_exhaust)
    with assms(2) tr have "trace st1 = pre @ Called c' (Some e) # post'" by simp
    then have "Called c' (Some e) \<in> set (trace st1)" by simp
    with c1 show False unfolding clean_def by blast
  qed
  with assms(2) tr err have eq: "trace st1 = pre" "c0 = c'" "e0 = e" by auto
  with c1 r post f h err show ?thesis by auto
qed

text \<open>
  The visitor fails on \<open>*Foo\<close>: the canonical \<open>*Conn\<close> is visited and stored into \<open>A\<close>, then
  the call on the canonical \<open>*Foo\<close> fails and the walk ends there with \<open>boom\<close>.
\<close>

theorem visitor_error_stops_walk_witness:
  "two_walk visit_fail_Foo = Some (Failed ''boom'', final (two_walk visit_fail_Foo)) \<and>
   trace (final (two_walk visit_fail_Foo)) =
     [Called (TPtr (TStruct ''Conn''), Ptr 0) None, Assigned (TStruct ''Root'') 0 1 (Ptr 0)]
     @ Called (TPtr (TStruct ''Foo''), Ptr 0) (Some ''boom'') # [] \<and>
   clean [Called (TPtr (TStruct ''Conn''), Ptr 0) None :: string event, Assigned (TStruct ''Root'') 0 1 (Ptr 0)] \<and>
   (\<exists>vs1. visit_fail_Foo vs1 (heap (final (two_walk visit_fail_Foo))) (TPtr (TStruct ''Foo''), Ptr 0)
      = (Some ''boom'', vstate (final (two_walk visit_fail_Foo))))"
  using visitor_error_stops_walk [of 2 two_schema HasFlags visit_fail_Foo root two_heap "()"
      "Failed ''boom''" "final (two_walk visit_fail_Foo)"
      "[Called (TPtr (TStruct ''Conn''), Ptr 0) None, Assigned (TStruct ''Root'') 0 1 (Ptr 0)]"
      "(TPtr (TStruct ''Foo''), Ptr 0)" "''boom''" "[]"]
  by (simp add: walk_eval clean_def)

text \<open>
  C7, no rollback. When \<open>Walk\<close> returns an error, every field that was assigned during the
  walk still holds the value it was assigned, and this value is the canonical instance of
  the field's type.
\<close>

theorem no_rollback:
  assumes "Walk n sch Implements fn c h vs = Some (Failed e, st')"
    and "Assigned t a i v \<in> set (trace st')"
  shows "get_field (heap st') t a i = Some v \<and>
         (\<exists>ft. field_type sch t i = Some ft \<and> Implements ft \<and> canonical st' ft = Some v)"
proof -
  have "trace_ok sch Implements st'"
    using Walk_sound(1) [OF assms(1)] by (simp add: walk_inv_def)
  with assms(2) have "shared_field sch Implements t i" "wired sch st' t a i"
    "get_field (heap st') t a i = Some v"
    unfolding trace_ok_def by fastforce+
  then show ?thesis by (auto simp: wired_def shared_field_def split: option.splits)
qed

text \<open>
  In the walk that fails on \<open>*Foo\<close>, the field \<open>A\<close> of the root was assigned before the
  error and still holds the canonical \<open>*Conn\<close>.
\<close>

theorem no_rollback_witness:
  "two_walk visit_fail_Foo = Some (Failed ''boom'', final (two_walk visit_fail_Foo)) \<and>
   Assigned (TStruct ''Root'') 0 1 (Ptr 0) \<in> set (trace (final (two_walk visit_fail_Foo))) \<and>
   get_field (heap (final (two_walk visit_fail_Foo))) (TStruct ''Root'') 0 1 = Some (Ptr 0) \<and>
   (\<exists>ft. field_type two_schema (TStruct ''Root'') 1 = Some ft \<and> HasFlags ft \<and>
         canonical (final (two_walk visit_fail_Foo)) ft = Some (Ptr 0))"
  using no_rollback [of 2 two_schema HasFlags visit_fail_Foo root two_heap "()" "''boom''"
      "final (two_walk visit_fail_Foo)" "TStruct ''Root''" 0 1 "Ptr 0"]
  by (simp add: walk_eval)






text \<open>
  C8, termination. The schema is a finite table. With a bound on the depth of the
  recursion above the number of field types of the schema, \<open>Walk\<close> returns (nil, an error
  or a panic), and a larger bound gives the same result: the walker calls itself only
  the first time it meets a type, so the depth never exceeds the number of field types
  by more than one, cyclic types or not.
\<close>

theorem walk_terminates:
  assumes "length (field_types sch) < n"
  shows "\<exists>r st'. Walk n sch Implements fn c h vs = Some (r, st') \<and>
                 Walk (Suc (length (field_types sch))) sch Implements fn c h vs = Some (r, st')"
proof -
  let ?N = "Suc (length (field_types sch))"
  have "\<exists>x. walker ?N sch Implements fn c (init h vs) = Some x"
    by (rule walker_returns) (simp add: unseen_init less_Suc_eq_le)
  then obtain r st' where
    x: "walker ?N sch Implements fn c (init h vs) = Some (r, st')" by auto
  from assms have n: "n = ?N + (n - ?N)" by simp
  from walker_more_fuel [OF x, of "n - ?N"] n
  have "walker n sch Implements fn c (init h vs) = Some (r, st')" by simp
  with x show ?thesis by (auto simp: Walk_def)
qed

text \<open>
  \<open>Conn\<close> and \<open>Foo\<close> refer to each other; the schema has two field types, and the walk
  returns nil within depth three.
\<close>

theorem walk_terminates_witness:
  "length (field_types cycle_schema) < 3 \<and>
   outcome (cycle_walk 3) = Some Done \<and>
   (\<exists>r st'. cycle_walk 3 = Some (r, st') \<and>
            cycle_walk (Suc (length (field_types cycle_schema))) = Some (r, st'))"
  using walk_terminates [of cycle_schema 3 HasFlags visit_nil root cycle_heap "()"]
  by (simp add: walk_eval)

end
